theory Spec2Isabelle
  imports Main "HOL-Library.Multiset"
begin

section \<open>Invoice records and the in-memory store\<close>

text \<open>
  The server keeps its invoices in a JavaScript \<^verbatim>\<open>Map<string, Invoice>\<close>. A record is
  the \<^verbatim>\<open>Invoice\<close> interface; timestamps (\<^verbatim>\<open>Date\<close> objects on the server) are their
  time value in milliseconds, and the two optional timestamps are absent until the simulator
  writes them. JavaScript numbers are modelled by \<open>int\<close>, which is exact for the integers
  of magnitude below \<open>2 ^ 53\<close>.
\<close>

datatype status = Pending | Processing | Processed | Failed

record invoice =
  invoice_id :: string
  fileName :: string
  fileSize :: int
  clientName :: string
  amount :: int
  uploadDate :: int
  status :: status
  filePath :: string
  processingStartTime :: "int option"
  processingEndTime :: "int option"

text \<open>
  A JavaScript \<^verbatim>\<open>Map\<close> iterates in insertion order, and \<^verbatim>\<open>set\<close> on a key that is
  present keeps the key's position: the store is an association list.
\<close>

type_synonym invoice_map = "(string \<times> invoice) list"

fun Map_get :: "invoice_map \<Rightarrow> string \<Rightarrow> invoice option" where
  "Map_get [] k = None"
| "Map_get ((k', v) # m) k = (if k' = k then Some v else Map_get m k)"

fun Map_set :: "invoice_map \<Rightarrow> string \<Rightarrow> invoice \<Rightarrow> invoice_map" where
  "Map_set [] k v = [(k, v)]"
| "Map_set ((k', v') # m) k v = (if k' = k then (k, v) # m else (k', v') # Map_set m k v)"

definition Map_values :: "invoice_map \<Rightarrow> invoice list" where
  "Map_values m = map snd m"

section \<open>JavaScript primitives used by the list endpoint\<close>

subsection \<open>Strings\<close>

text \<open>
  A string is the list of its code units, each below 256 (the Latin-1 range). On these,
  \<^verbatim>\<open>toLowerCase\<close> adds 32 to the upper-case letters, which are the code units 65 to 90
  (A to Z), 192 to 214 and 216 to 222 (the accented capitals; 215 is the multiplication
  sign), and leaves every other code unit as it is. \<^verbatim>\<open>includes\<close> looks for the needle at
  every position of the receiver.
\<close>

definition lower_char :: "char \<Rightarrow> char" where
  "lower_char c =
     (let n = (of_char c :: nat)
      in if (65 \<le> n \<and> n \<le> 90) \<or> (192 \<le> n \<and> n \<le> 214) \<or> (216 \<le> n \<and> n \<le> 222)
         then char_of (n + 32) else c)"

definition toLowerCase :: "string \<Rightarrow> string" where
  "toLowerCase s = map lower_char s"

fun String_startsWith :: "string \<Rightarrow> string \<Rightarrow> bool" where
  "String_startsWith s [] = True"
| "String_startsWith [] (c # n) = False"
| "String_startsWith (d # s) (c # n) = (d = c \<and> String_startsWith s n)"

fun String_includes :: "string \<Rightarrow> string \<Rightarrow> bool" where
  "String_includes [] n = (n = [])"
| "String_includes (d # s) n = (String_startsWith (d # s) n \<or> String_includes s n)"

text \<open>The relational operator \<^verbatim>\<open><\<close> on two strings compares them code unit by code unit.\<close>

fun str_lt :: "string \<Rightarrow> string \<Rightarrow> bool" where
  "str_lt [] [] = False"
| "str_lt [] (y # ys) = True"
| "str_lt (x # xs) [] = False"
| "str_lt (x # xs) (y # ys) =
     (if (of_char x :: nat) < of_char y then True
      else if (of_char y :: nat) < of_char x then False
      else str_lt xs ys)"

subsection \<open>parseInt\<close>

text \<open>
  \<^verbatim>\<open>parseInt(s)\<close> without a radix: leading white space is skipped, one sign is read, the
  prefix \<^verbatim>\<open>0x\<close> or \<^verbatim>\<open>0X\<close> selects radix 16, and the longest run of digits is the value;
  no digit at all gives \<^verbatim>\<open>NaN\<close>, here \<open>None\<close>. An absent query parameter is
  \<^verbatim>\<open>undefined\<close>, which \<^verbatim>\<open>parseInt\<close> reads as the string "undefined". The white space
  below 256 is tab, line feed, vertical tab, form feed, carriage return, space and the
  no-break space. The value is the integer the digits denote; the code's number is that
  integer for magnitudes below \<open>2 ^ 53\<close> and its rounding to a double beyond.
\<close>

definition is_white_space :: "char \<Rightarrow> bool" where
  "is_white_space c = ((of_char c :: nat) \<in> {9, 10, 11, 12, 13, 32, 160})"

definition digit_value :: "nat \<Rightarrow> char \<Rightarrow> nat option" where
  "digit_value radix c =
     (let n = (of_char c :: nat);
          v = (if 48 \<le> n \<and> n \<le> 57 then Some (n - 48)
               else if 97 \<le> n \<and> n \<le> 122 then Some (n - 87)
               else if 65 \<le> n \<and> n \<le> 90 then Some (n - 55)
               else None)
      in case v of None \<Rightarrow> None | Some d \<Rightarrow> if d < radix then Some d else None)"

fun digits_prefix :: "nat \<Rightarrow> string \<Rightarrow> nat list" where
  "digits_prefix radix [] = []"
| "digits_prefix radix (c # s) =
     (case digit_value radix c of None \<Rightarrow> [] | Some d \<Rightarrow> d # digits_prefix radix s)"

definition parseInt :: "string option \<Rightarrow> int option" where
  "parseInt arg =
     (let inputString = (case arg of None \<Rightarrow> ''undefined'' | Some s \<Rightarrow> s);
          S = dropWhile is_white_space inputString;
          sign = (if S \<noteq> [] \<and> hd S = CHR ''-'' then - 1 else (1 :: int));
          S = (if S \<noteq> [] \<and> (hd S = CHR ''+'' \<or> hd S = CHR ''-'') then tl S else S);
          R = (if take 2 S = ''0x'' \<or> take 2 S = ''0X'' then 16 else (10 :: nat));
          S = (if take 2 S = ''0x'' \<or> take 2 S = ''0X'' then drop 2 S else S);
          Z = digits_prefix R S
      in if Z = [] then None
         else Some (sign * int (foldl (\<lambda>acc d. acc * R + d) 0 Z)))"

text \<open>\<^verbatim>\<open>parseInt(x) || d\<close>: \<^verbatim>\<open>NaN\<close> and zero are falsy.\<close>

definition number_or :: "int option \<Rightarrow> int \<Rightarrow> int" where
  "number_or v d = (case v of None \<Rightarrow> d | Some n \<Rightarrow> if n = 0 then d else n)"

text \<open>\<^verbatim>\<open>(x as string) || d\<close>: \<^verbatim>\<open>undefined\<close> and the empty string are falsy.\<close>

definition truthy :: "string option \<Rightarrow> bool" where
  "truthy v = (case v of None \<Rightarrow> False | Some s \<Rightarrow> s \<noteq> [])"

definition string_or :: "string option \<Rightarrow> string \<Rightarrow> string" where
  "string_or v d = (if truthy v then the v else d)"

subsection \<open>Array.prototype.slice\<close>

text \<open>
  A negative bound counts from the end of the array, and both bounds are clamped to the
  array.
\<close>

definition slice :: "'a list \<Rightarrow> int \<Rightarrow> int \<Rightarrow> 'a list" where
  "slice xs start_arg end_arg =
     (let len = int (length xs);
          k = (if start_arg < 0 then max (len + start_arg) 0 else min start_arg len);
          final = (if end_arg < 0 then max (len + end_arg) 0 else min end_arg len)
      in take (nat (final - k)) (drop (nat k) xs))"

subsection \<open>Property values and their comparison\<close>

text \<open>
  \<^verbatim>\<open>a[sortBy]\<close> reads the property named by the request. The names of the \<^verbatim>\<open>Invoice\<close>
  interface give the field; any other name gives \<^verbatim>\<open>undefined\<close> (a name inherited from
  \<^verbatim>\<open>Object.prototype\<close> gives the same object on every record, which, as
  \<^verbatim>\<open>undefined\<close> does, compares neither greater nor less than itself).
\<close>

datatype jsval = JNum int | JStr string | JDate int | JUndefined

definition status_string :: "status \<Rightarrow> string" where
  "status_string s =
     (case s of Pending \<Rightarrow> ''Pending'' | Processing \<Rightarrow> ''Processing''
      | Processed \<Rightarrow> ''Processed'' | Failed \<Rightarrow> ''Failed'')"

definition date_or_undefined :: "int option \<Rightarrow> jsval" where
  "date_or_undefined t = (case t of None \<Rightarrow> JUndefined | Some ms \<Rightarrow> JDate ms)"

definition get_property :: "invoice \<Rightarrow> string \<Rightarrow> jsval" where
  "get_property a key =
     (if key = ''id'' then JStr (invoice_id a)
      else if key = ''fileName'' then JStr (fileName a)
      else if key = ''fileSize'' then JNum (fileSize a)
      else if key = ''clientName'' then JStr (clientName a)
      else if key = ''amount'' then JNum (amount a)
      else if key = ''uploadDate'' then JDate (uploadDate a)
      else if key = ''status'' then JStr (status_string (status a))
      else if key = ''filePath'' then JStr (filePath a)
      else if key = ''processingStartTime'' then date_or_undefined (processingStartTime a)
      else if key = ''processingEndTime'' then date_or_undefined (processingEndTime a)
      else JUndefined)"

text \<open>
  \<^verbatim>\<open>x < y\<close>: two strings compare as strings; numbers and dates compare by their numeric
  value; \<^verbatim>\<open>undefined\<close> converts to \<^verbatim>\<open>NaN\<close>, and every comparison with it is false.
  The two operands of the comparator are the same property of two records, so a string
  never meets a number or a date.
\<close>

fun js_lt :: "jsval \<Rightarrow> jsval \<Rightarrow> bool" where
  "js_lt (JStr x) (JStr y) = str_lt x y"
| "js_lt (JNum x) (JNum y) = (x < y)"
| "js_lt (JNum x) (JDate y) = (x < y)"
| "js_lt (JDate x) (JNum y) = (x < y)"
| "js_lt (JDate x) (JDate y) = (x < y)"
| "js_lt _ _ = False"

definition js_gt :: "jsval \<Rightarrow> jsval \<Rightarrow> bool" where
  "js_gt x y = js_lt y x"

text \<open>\<^verbatim>\<open>new Date(v).getTime()\<close> on a property value.\<close>

definition Date_getTime :: "jsval \<Rightarrow> jsval" where
  "Date_getTime v = (case v of JDate ms \<Rightarrow> JNum ms | JNum n \<Rightarrow> JNum n | _ \<Rightarrow> JUndefined)"

section \<open>GET /api/invoices\<close>

text \<open>
  The query parameters arrive as optional strings (the handler casts each one to
  \<^verbatim>\<open>string\<close>). With string parameters no operation of the handler throws, so its
  \<^verbatim>\<open>catch\<close> branch has no counterpart here and the handler is a total function to the
  JSON body it sends.
\<close>

record query =
  query_page :: "string option"
  query_limit :: "string option"
  query_sortBy :: "string option"
  query_sortOrder :: "string option"
  query_status :: "string option"
  query_search :: "string option"

record InvoiceListResponse =
  data :: "invoice list"
  total :: nat
  page :: int
  limit :: int

definition page_of :: "query \<Rightarrow> int" where
  "page_of q = number_or (parseInt (query_page q)) 1"

definition limit_of :: "query \<Rightarrow> int" where
  "limit_of q = number_or (parseInt (query_limit q)) 10"

definition sortBy_of :: "query \<Rightarrow> string" where
  "sortBy_of q = string_or (query_sortBy q) ''uploadDate''"

definition sortOrder_of :: "query \<Rightarrow> string" where
  "sortOrder_of q = string_or (query_sortOrder q) ''desc''"

definition status_filter :: "string option \<Rightarrow> invoice list \<Rightarrow> invoice list" where
  "status_filter st xs =
     (if truthy st \<and> st \<noteq> Some ''all''
      then filter (\<lambda>invoice. status_string (status invoice) = the st) xs
      else xs)"

definition search_filter :: "string option \<Rightarrow> invoice list \<Rightarrow> invoice list" where
  "search_filter search xs =
     (if truthy search
      then (let searchLower = toLowerCase (the search)
            in filter (\<lambda>invoice. String_includes (toLowerCase (fileName invoice)) searchLower
                         \<or> String_includes (toLowerCase (clientName invoice)) searchLower) xs)
      else xs)"

definition filteredInvoices :: "invoice_map \<Rightarrow> query \<Rightarrow> invoice list" where
  "filteredInvoices invoices q =
     search_filter (query_search q) (status_filter (query_status q) (Map_values invoices))"

text \<open>The comparison function handed to \<^verbatim>\<open>sort\<close>. It returns 1 or -1, never 0.\<close>

definition comparator :: "string \<Rightarrow> string \<Rightarrow> invoice \<Rightarrow> invoice \<Rightarrow> int" where
  "comparator sortBy sortOrder a b =
     (let aValue = get_property a sortBy;
          bValue = get_property b sortBy;
          aValue = (if sortBy = ''uploadDate'' then Date_getTime aValue else aValue);
          bValue = (if sortBy = ''uploadDate'' then Date_getTime bValue else bValue)
      in if sortOrder = ''asc''
         then (if js_gt aValue bValue then 1 else - 1)
         else (if js_lt aValue bValue then 1 else - 1))"

text \<open>
  \<^verbatim>\<open>Array.prototype.sort\<close> belongs to the JavaScript engine, not to the repository. The
  handler takes it as the parameter \<open>srt\<close>; what the language promises for every
  comparison function, consistent or not, is that the array holds the same elements
  afterwards.
\<close>

type_synonym array_sort = "(invoice \<Rightarrow> invoice \<Rightarrow> int) \<Rightarrow> invoice list \<Rightarrow> invoice list"

definition sort_permutes :: "array_sort \<Rightarrow> bool" where
  "sort_permutes srt = (\<forall>cmp xs. mset (srt cmp xs) = mset xs)"

definition sortedInvoices :: "array_sort \<Rightarrow> invoice_map \<Rightarrow> query \<Rightarrow> invoice list" where
  "sortedInvoices srt invoices q =
     srt (comparator (sortBy_of q) (sortOrder_of q)) (filteredInvoices invoices q)"

definition get_api_invoices :: "array_sort \<Rightarrow> invoice_map \<Rightarrow> query \<Rightarrow> InvoiceListResponse" where
  "get_api_invoices srt invoices q =
     (let page = page_of q;
          limit = limit_of q;
          sorted = sortedInvoices srt invoices q;
          startIndex = (page - 1) * limit;
          endIndex = startIndex + limit
      in \<lparr>data = slice sorted startIndex endIndex,
          total = length sorted,
          page = page,
          limit = limit\<rparr>)"

section \<open>The sort of the V8 engine on short arrays\<close>

text \<open>
  The server runs on Node.js, whose engine V8 sorts with TimSort. On an array of fewer than
  64 elements the minimal run length is the whole array, so the sort is: nothing for fewer
  than two elements; otherwise \<^verbatim>\<open>CountAndMakeRun\<close> finds the run that starts the array
  (reversing it in place when it is descending) and \<^verbatim>\<open>BinaryInsertionSort\<close> inserts the
  remaining elements one by one. These definitions follow that path; they are the engine's
  sort for arrays of up to 63 elements, and are used here to evaluate the handler on small
  stores.
\<close>

fun count_run :: "('a \<Rightarrow> 'a \<Rightarrow> int) \<Rightarrow> bool \<Rightarrow> 'a \<Rightarrow> 'a list \<Rightarrow> nat" where
  "count_run cmp isDescending previousElement [] = 0"
| "count_run cmp isDescending previousElement (currentElement # rest) =
     (let order = cmp currentElement previousElement
      in if (if isDescending then order \<ge> 0 else order < 0) then 0
         else Suc (count_run cmp isDescending currentElement rest))"

definition CountAndMakeRun :: "('a \<Rightarrow> 'a \<Rightarrow> int) \<Rightarrow> 'a list \<Rightarrow> nat \<times> 'a list" where
  "CountAndMakeRun cmp workArray =
     (case workArray of
        [] \<Rightarrow> (0, [])
      | [x] \<Rightarrow> (1, [x])
      | elementHigh # elementLow # rest \<Rightarrow>
          (let isDescending = (cmp elementLow elementHigh < 0);
               runLength = 2 + count_run cmp isDescending elementLow rest
           in (runLength,
               if isDescending
               then rev (take runLength workArray) @ drop runLength workArray
               else workArray)))"

text \<open>
  The binary search of the insertion point of \<open>pivot\<close> in \<open>workArray[left..right)\<close>: an order
  below zero moves \<open>right\<close>, any other order moves \<open>left\<close>.
\<close>

function binary_search ::
  "('a \<Rightarrow> 'a \<Rightarrow> int) \<Rightarrow> 'a \<Rightarrow> 'a list \<Rightarrow> nat \<Rightarrow> nat \<Rightarrow> nat" where
  "binary_search cmp pivot workArray left right =
     (if left < right
      then (let mid = left + (right - left) div 2
            in if cmp pivot (workArray ! mid) < 0
               then binary_search cmp pivot workArray left mid
               else binary_search cmp pivot workArray (mid + 1) right)
      else left)"
  by pat_completeness auto
termination
  by (relation "measure (\<lambda>(cmp, pivot, workArray, left, right). right - left)") auto

declare binary_search.simps [simp del]

text \<open>Moving \<open>workArray[start]\<close> down to index \<open>left\<close>, the elements between shifted up by one.\<close>

definition insert_at :: "'a list \<Rightarrow> nat \<Rightarrow> nat \<Rightarrow> 'a list" where
  "insert_at workArray left start =
     take left workArray @ [workArray ! start]
       @ take (start - left) (drop left workArray) @ drop (Suc start) workArray"

text \<open>
  One round of the insertion loop, and the loop \<^verbatim>\<open>for (; start < high; ++start)\<close> with
  \<open>low = 0\<close>; the moves are in place, so \<open>high\<close> stays the length of the array.
\<close>

definition insertion_step :: "('a \<Rightarrow> 'a \<Rightarrow> int) \<Rightarrow> 'a list \<Rightarrow> nat \<Rightarrow> 'a list" where
  "insertion_step cmp workArray start =
     (let pivot = workArray ! start;
          left = binary_search cmp pivot workArray 0 start
      in insert_at workArray left start)"

definition BinaryInsertionSort ::
  "('a \<Rightarrow> 'a \<Rightarrow> int) \<Rightarrow> 'a list \<Rightarrow> nat \<Rightarrow> nat \<Rightarrow> 'a list" where
  "BinaryInsertionSort cmp workArray startArg high =
     (let start = (if 0 = startArg then startArg + 1 else startArg)
      in foldl (insertion_step cmp) workArray [start..<high])"

definition v8_sort_short :: "('a \<Rightarrow> 'a \<Rightarrow> int) \<Rightarrow> 'a list \<Rightarrow> 'a list" where
  "v8_sort_short cmp xs =
     (if length xs < 2 then xs
      else (let (currentRunLength, workArray) = CountAndMakeRun cmp xs
            in BinaryInsertionSort cmp workArray currentRunLength (length xs)))"

text \<open>
  \<open>a\<close> precedes \<open>b\<close> when the comparison function answers below zero on them. The
  engine's sort returns a sequence in which every element precedes the later ones as soon
  as this relation is total and transitive. Two elements may precede each other: the
  comparison function of the handler says so of two records with equal keys.
\<close>

definition precedes :: "('a \<Rightarrow> 'a \<Rightarrow> int) \<Rightarrow> 'a \<Rightarrow> 'a \<Rightarrow> bool" where
  "precedes cmp a b = (cmp a b < 0)"

definition total_preorder :: "('a \<Rightarrow> 'a \<Rightarrow> int) \<Rightarrow> bool" where
  "total_preorder cmp =
     ((\<forall>a b. precedes cmp a b \<or> precedes cmp b a)
      \<and> (\<forall>a b c. precedes cmp a b \<longrightarrow> precedes cmp b c \<longrightarrow> precedes cmp a c))"

section \<open>POST /api/invoices/upload and the status simulator\<close>

text \<open>
  The server state is the store together with the callbacks that \<^verbatim>\<open>setTimeout\<close> has
  registered and that have not run yet. A callback runs once; the order in which pending
  callbacks run is left open, so every interleaving of the timers is covered.
\<close>

datatype timer = StartTimer string | FinishTimer string

record server =
  invoices :: invoice_map
  timers :: "timer list"

definition mockClients :: "string list" where
  "mockClients =
     [''Acme Corporation'', ''TechFlow Solutions'', ''Global Dynamics'',
      ''Innovate Industries'', ''NextGen Systems'', ''Prime Enterprises'',
      ''Digital Horizons'', ''Strategic Partners'', ''Future Ventures'', ''Elite Services'']"

text \<open>
  The random draws are arguments: \<open>r\<close> stands for \<^verbatim>\<open>Math.floor(Math.random() * 10000)\<close>
  in \<open>generateMockAmount\<close> and for \<^verbatim>\<open>Math.floor(Math.random() * mockClients.length)\<close>, an
  index below 10, in \<open>getRandomClient\<close>.
\<close>

definition generateMockAmount :: "int \<Rightarrow> int" where
  "generateMockAmount r = r + 100"

definition getRandomClient :: "nat \<Rightarrow> string" where
  "getRandomClient r = mockClients ! r"

text \<open>An uploaded file as multer hands it over, and what the handler draws for it.\<close>

record multer_file =
  file_originalname :: string
  file_size :: int
  file_path :: string

record draws =
  uuid :: string
  client_random :: nat
  amount_random :: int
  now :: int

definition new_invoice :: "multer_file \<Rightarrow> draws \<Rightarrow> invoice" where
  "new_invoice f d =
     \<lparr>invoice_id = uuid d,
      fileName = file_originalname f,
      fileSize = file_size f,
      clientName = getRandomClient (client_random d),
      amount = generateMockAmount (amount_random d),
      uploadDate = now d,
      status = Pending,
      filePath = file_path f,
      processingStartTime = None,
      processingEndTime = None\<rparr>"

text \<open>The body of \<^verbatim>\<open>files.forEach\<close>: store the record and register the Start callback.\<close>

definition upload_file :: "server \<Rightarrow> multer_file \<times> draws \<Rightarrow> server" where
  "upload_file s fd =
     s\<lparr>invoices := Map_set (invoices s) (uuid (snd fd)) (new_invoice (fst fd) (snd fd)),
       timers := timers s @ [StartTimer (uuid (snd fd))]\<rparr>"

text \<open>A request without files is answered with status 400 and changes nothing.\<close>

definition post_upload :: "server \<Rightarrow> (multer_file \<times> draws) list \<Rightarrow> server" where
  "post_upload s files = (if files = [] then s else foldl upload_file s files)"

text \<open>
  \<open>simulateProcessing\<close> is the Start step; the callback it registers is the Finish step,
  \<open>isSuccess\<close> being the outcome of \<^verbatim>\<open>Math.random() < 0.8\<close>.
\<close>

definition simulateProcessing :: "server \<Rightarrow> string \<Rightarrow> int \<Rightarrow> server" where
  "simulateProcessing s invoiceId t =
     (case Map_get (invoices s) invoiceId of
        None \<Rightarrow> s
      | Some invoice \<Rightarrow>
          s\<lparr>invoices := Map_set (invoices s) invoiceId
                          (invoice\<lparr>status := Processing, processingStartTime := Some t\<rparr>),
            timers := timers s @ [FinishTimer invoiceId]\<rparr>)"

definition finishProcessing :: "server \<Rightarrow> string \<Rightarrow> bool \<Rightarrow> int \<Rightarrow> server" where
  "finishProcessing s invoiceId isSuccess t =
     (case Map_get (invoices s) invoiceId of
        None \<Rightarrow> s
      | Some updatedInvoice \<Rightarrow>
          s\<lparr>invoices := Map_set (invoices s) invoiceId
                          (updatedInvoice\<lparr>status := (if isSuccess then Processed else Failed),
                                          processingEndTime := Some t\<rparr>)\<rparr>)"

text \<open>
  What can happen to the server: an upload request, or a pending callback runs. A callback
  that is not pending cannot run (\<open>None\<close>).
\<close>

datatype event =
    Upload "(multer_file \<times> draws) list"
  | FireStart string int
  | FireFinish string bool int

definition step :: "server \<Rightarrow> event \<Rightarrow> server option" where
  "step s e =
     (case e of
        Upload files \<Rightarrow> Some (post_upload s files)
      | FireStart i t \<Rightarrow>
          if StartTimer i \<in> set (timers s)
          then Some (simulateProcessing (s\<lparr>timers := remove1 (StartTimer i) (timers s)\<rparr>) i t)
          else None
      | FireFinish i ok t \<Rightarrow>
          if FinishTimer i \<in> set (timers s)
          then Some (finishProcessing (s\<lparr>timers := remove1 (FinishTimer i) (timers s)\<rparr>) i ok t)
          else None)"

fun run :: "server \<Rightarrow> event list \<Rightarrow> server option" where
  "run s [] = Some s"
| "run s (e # es) = (case step s e of None \<Rightarrow> None | Some s' \<Rightarrow> run s' es)"

definition initial :: server where
  "initial = \<lparr>invoices = [], timers = []\<rparr>"

text \<open>
  \<^verbatim>\<open>uuidv4()\<close> is taken to return an identifier that is not in use: the identifiers drawn
  by an upload are new to the store and differ from each other.
\<close>

fun fresh_uuids :: "invoice_map \<Rightarrow> string list \<Rightarrow> bool" where
  "fresh_uuids m [] = True"
| "fresh_uuids m (u # us) = (Map_get m u = None \<and> u \<notin> set us \<and> fresh_uuids m us)"

definition event_fresh :: "server \<Rightarrow> event \<Rightarrow> bool" where
  "event_fresh s e =
     (case e of Upload files \<Rightarrow> fresh_uuids (invoices s) (map (\<lambda>fd. uuid (snd fd)) files)
      | _ \<Rightarrow> True)"

fun run_fresh :: "server \<Rightarrow> event list \<Rightarrow> bool" where
  "run_fresh s [] = True"
| "run_fresh s (e # es) =
     (event_fresh s e \<and> (case step s e of None \<Rightarrow> True | Some s' \<Rightarrow> run_fresh s' es))"

text \<open>The moves of a status that the lifecycle allows in one step.\<close>

definition forward :: "status \<Rightarrow> status \<Rightarrow> bool" where
  "forward a b =
     (a = b \<or> (a = Pending \<and> b = Processing)
      \<or> (a = Processing \<and> (b = Processed \<or> b = Failed)))"

section \<open>What the specification says about the filters\<close>

text \<open>
  Two characters are the same letter when they are equal or one is an upper-case letter
  (A to Z, or an accented capital of Latin-1) and the other its lower-case form, 32 code
  units above; \<open>needle\<close> is a case-insensitive substring of \<open>hay\<close>
  when some stretch of \<open>hay\<close> matches it letter by letter. A record passes the status
  filter when no status is asked for (absent, empty or the sentinel "all") or its status is
  the one asked for, and passes the text filter when no text is given or the text is a
  case-insensitive substring of its file name or of its client name.
\<close>

definition is_upper :: "char \<Rightarrow> bool" where
  "is_upper c =
     ((of_char c :: nat) \<in> {65..90} \<or> (of_char c :: nat) \<in> {192..214}
      \<or> (of_char c :: nat) \<in> {216..222})"

definition same_letter :: "char \<Rightarrow> char \<Rightarrow> bool" where
  "same_letter c d =
     (c = d \<or> (is_upper c \<and> (of_char d :: nat) = of_char c + 32)
      \<or> (is_upper d \<and> (of_char c :: nat) = of_char d + 32))"

definition ci_substring :: "string \<Rightarrow> string \<Rightarrow> bool" where
  "ci_substring needle hay =
     (\<exists>pre mid suf. hay = pre @ mid @ suf \<and> list_all2 same_letter mid needle)"

definition passes_status :: "string option \<Rightarrow> invoice \<Rightarrow> bool" where
  "passes_status st invoice =
     (case st of None \<Rightarrow> True
      | Some s \<Rightarrow> s = [] \<or> s = ''all'' \<or> status_string (status invoice) = s)"

definition passes_search :: "string option \<Rightarrow> invoice \<Rightarrow> bool" where
  "passes_search search invoice =
     (case search of None \<Rightarrow> True
      | Some s \<Rightarrow> ci_substring s (fileName invoice) \<or> ci_substring s (clientName invoice))"

section \<open>Sample stores and requests\<close>

definition sample_invoice :: "string \<Rightarrow> int \<Rightarrow> int \<Rightarrow> status \<Rightarrow> invoice" where
  "sample_invoice i sz a st =
     \<lparr>invoice_id = i, fileName = i @ ''.pdf'', fileSize = sz,
      clientName = ''Acme Corporation'', amount = a, uploadDate = 1700000000000,
      status = st, filePath = ''uploads/'' @ i @ ''.pdf'',
      processingStartTime = None, processingEndTime = None\<rparr>"

definition store_of :: "invoice list \<Rightarrow> invoice_map" where
  "store_of xs = map (\<lambda>invoice. (invoice_id invoice, invoice)) xs"

definition no_params :: query where
  "no_params = \<lparr>query_page = None, query_limit = None, query_sortBy = None,
     query_sortOrder = None, query_status = None, query_search = None\<rparr>"

definition amounts_store :: invoice_map where
  "amounts_store = store_of
     [sample_invoice ''first500'' 4096 500 Pending,
      sample_invoice ''first100'' 3072 100 Processing,
      sample_invoice ''second100'' 2048 100 Pending,
      sample_invoice ''first900'' 1024 900 Processed]"


definition five_store :: invoice_map where
  "five_store = store_of
     [sample_invoice ''a'' 1 101 Pending, sample_invoice ''b'' 2 102 Pending,
      sample_invoice ''c'' 3 103 Pending, sample_invoice ''d'' 4 104 Pending,
      sample_invoice ''e'' 5 105 Pending]"

definition property_names :: "string list" where
  "property_names =
     [''id'', ''fileName'', ''fileSize'', ''clientName'', ''amount'', ''uploadDate'',
      ''status'', ''filePath'', ''processingStartTime'', ''processingEndTime'']"

definition page3_limit10 :: query where
  "page3_limit10 = no_params\<lparr>query_page := Some ''3'', query_limit := Some ''10''\<rparr>"

definition page_minus1_limit1 :: query where
  "page_minus1_limit1 = no_params\<lparr>query_page := Some ''-1'', query_limit := Some ''1''\<rparr>"

definition amount_asc :: query where
  "amount_asc = no_params\<lparr>query_sortBy := Some ''amount'', query_sortOrder := Some ''asc''\<rparr>"

definition fileSize_asc :: query where
  "fileSize_asc = no_params\<lparr>query_sortBy := Some ''fileSize'', query_sortOrder := Some ''asc''\<rparr>"

definition nonsense_asc :: query where
  "nonsense_asc = no_params\<lparr>query_sortBy := Some ''nonsense'', query_sortOrder := Some ''asc''\<rparr>"

definition sample_file :: multer_file where
  "sample_file = \<lparr>file_originalname = ''invoice.pdf'', file_size = 2048,
     file_path = ''uploads/u1-invoice.pdf''\<rparr>"

definition sample_draws :: draws where
  "sample_draws = \<lparr>uuid = ''u1'', client_random = 3, amount_random = 4900,
     now = 1700000000000\<rparr>"

definition sample_events :: "event list" where
  "sample_events =
     [Upload [(sample_file, sample_draws)],
      FireStart ''u1'' 1700000001000,
      FireFinish ''u1'' False 1700000020000]"

definition sample_uploaded :: server where
  "sample_uploaded = post_upload initial [(sample_file, sample_draws)]"

definition colliding_events :: "event list" where
  "colliding_events =
     [Upload [(sample_file, sample_draws)],
      FireStart ''u1'' 1700000001000,
      Upload [(sample_file, sample_draws)],
      FireFinish ''u1'' True 1700000020000]"

section \<open>Histories and the invariant of the simulator\<close>

text \<open>
  \<open>observe\<close> is what a reader sees of one identifier: nothing, or the status of its
  record. \<open>history\<close> lists what is seen before and after every event of a run (it stops
  at an event that cannot happen). One observation may follow another when the record is
  still absent, has just been created as Pending, or has made a \<open>forward\<close> move.
\<close>

definition observe :: "server \<Rightarrow> string \<Rightarrow> status option" where
  "observe s i = map_option status (Map_get (invoices s) i)"

fun history :: "server \<Rightarrow> event list \<Rightarrow> string \<Rightarrow> status option list" where
  "history s [] i = [observe s i]"
| "history s (e # es) i =
     observe s i # (case step s e of None \<Rightarrow> [] | Some s' \<Rightarrow> history s' es i)"

fun allowed :: "status option \<Rightarrow> status option \<Rightarrow> bool" where
  "allowed None None = True"
| "allowed None (Some b) = (b = Pending)"
| "allowed (Some a) None = False"
| "allowed (Some a) (Some b) = forward a b"

text \<open>
  The invariant that links the store with the pending callbacks: no callback is pending
  twice, a pending Start belongs to a Pending record and a pending Finish to a Processing
  record. \<open>moves_forward\<close> relates the stores before and after one event.
\<close>

definition timers_agree :: "server \<Rightarrow> bool" where
  "timers_agree s =
     (distinct (timers s)
      \<and> (\<forall>i. StartTimer i \<in> set (timers s) \<longrightarrow>
             (\<exists>v. Map_get (invoices s) i = Some v \<and> status v = Pending))
      \<and> (\<forall>i. FinishTimer i \<in> set (timers s) \<longrightarrow>
             (\<exists>v. Map_get (invoices s) i = Some v \<and> status v = Processing)))"

definition moves_forward :: "server \<Rightarrow> server \<Rightarrow> bool" where
  "moves_forward s s' =
     ((\<forall>i v. Map_get (invoices s) i = Some v \<longrightarrow>
         (\<exists>v'. Map_get (invoices s') i = Some v' \<and> forward (status v) (status v')))
      \<and> (\<forall>i v'. Map_get (invoices s) i = None \<longrightarrow> Map_get (invoices s') i = Some v' \<longrightarrow>
            status v' = Pending))"

section \<open>The engine's sort permutes\<close>

lemma binary_search_stop:
  "\<not> left < right \<Longrightarrow> binary_search cmp pivot workArray left right = left"
  by (subst binary_search.simps) simp

lemma binary_search_lower:
  "left < right \<Longrightarrow> cmp pivot (workArray ! (left + (right - left) div 2)) < 0 \<Longrightarrow>
     binary_search cmp pivot workArray left right
       = binary_search cmp pivot workArray left (left + (right - left) div 2)"
  by (subst binary_search.simps) (simp add: Let_def)

lemma binary_search_upper:
  "left < right \<Longrightarrow> \<not> cmp pivot (workArray ! (left + (right - left) div 2)) < 0 \<Longrightarrow>
     binary_search cmp pivot workArray left right
       = binary_search cmp pivot workArray (left + (right - left) div 2 + 1) right"
  by (subst binary_search.simps) (simp add: Let_def)

lemma binary_search_bounds:
  "left \<le> right \<Longrightarrow>
     left \<le> binary_search cmp pivot workArray left right
     \<and> binary_search cmp pivot workArray left right \<le> right"
proof (induction cmp pivot workArray left right rule: binary_search.induct)
  case (1 cmp pivot workArray left right)
  show ?case
  proof (cases "left < right")
    case False
    with "1.prems" show ?thesis by (simp add: binary_search_stop)
  next
    case True
    let ?mid = "left + (right - left) div 2"
    have mid: "left \<le> ?mid" "?mid < right" using True by auto
    show ?thesis
    proof (cases "cmp pivot (workArray ! ?mid) < 0")
      case neg: True
      from "1.IH"(1)[OF True refl neg] mid
      show ?thesis
        by (simp add: binary_search_lower[of left right cmp pivot workArray, OF True neg])
    next
      case nonneg: False
      from "1.IH"(2)[OF True refl nonneg] mid
      show ?thesis
        by (simp add: binary_search_upper[of left right cmp pivot workArray, OF True nonneg])
    qed
  qed
qed

lemma mset_take_drop: "mset (take n xs) + mset (drop n xs) = mset xs"
  by (metis append_take_drop_id mset_append)

lemma insert_at_eq:
  assumes "left \<le> start" "start < length workArray"
  shows "insert_at workArray left start =
           take left workArray @ [workArray ! start]
             @ drop left (take start workArray) @ drop (Suc start) workArray"
  using assms by (simp add: insert_at_def drop_take)

lemma mset_insert_at:
  assumes "left \<le> start" "start < length workArray"
  shows "mset (insert_at workArray left start) = mset workArray"
proof -
  have low: "mset (take left workArray) + mset (drop left (take start workArray))
               = mset (take start workArray)"
    using mset_take_drop[of left "take start workArray"] assms(1) by (simp add: min_def)
  have "mset (insert_at workArray left start) =
          (mset (take left workArray) + mset (drop left (take start workArray)))
            + mset [workArray ! start] + mset (drop (Suc start) workArray)"
    using assms by (simp add: insert_at_eq)
  also have "\<dots> = mset (take start workArray @ [workArray ! start] @ drop (Suc start) workArray)"
    unfolding low by simp
  also have "\<dots> = mset workArray"
    using assms(2) by (simp flip: id_take_nth_drop)
  finally show ?thesis .
qed

lemma mset_insertion_step:
  assumes "start < length workArray"
  shows "mset (insertion_step cmp workArray start) = mset workArray"
  using assms binary_search_bounds[of 0 start cmp "workArray ! start" workArray]
  by (simp add: insertion_step_def Let_def mset_insert_at)

lemma mset_insertion_loop:
  "\<forall>n \<in> set ns. n < length workArray \<Longrightarrow>
     mset (foldl (insertion_step cmp) workArray ns) = mset workArray"
proof (induction ns arbitrary: workArray)
  case Nil
  show ?case by simp
next
  case (Cons n ns)
  have step: "mset (insertion_step cmp workArray n) = mset workArray"
    using Cons.prems by (simp add: mset_insertion_step)
  then have "length (insertion_step cmp workArray n) = length workArray"
    by (metis size_mset)
  with Cons.prems have "\<forall>k \<in> set ns. k < length (insertion_step cmp workArray n)"
    by simp
  from Cons.IH[OF this] step show ?case by simp
qed

lemma mset_BinaryInsertionSort:
  "high \<le> length workArray \<Longrightarrow>
     mset (BinaryInsertionSort cmp workArray startArg high) = mset workArray"
  by (simp add: BinaryInsertionSort_def Let_def mset_insertion_loop)

lemma mset_CountAndMakeRun: "mset (snd (CountAndMakeRun cmp xs)) = mset xs"
proof -
  show ?thesis
    by (simp add: CountAndMakeRun_def Let_def mset_take_drop split: list.splits)
qed

lemma mset_v8_sort_short: "mset (v8_sort_short cmp xs) = mset xs"
proof (cases "length xs < 2")
  case True
  then show ?thesis by (simp add: v8_sort_short_def)
next
  case False
  obtain n wa where run: "CountAndMakeRun cmp xs = (n, wa)" by (cases "CountAndMakeRun cmp xs")
  with mset_CountAndMakeRun[of cmp xs] have wa: "mset wa = mset xs" by simp
  then have "length wa = length xs" by (metis size_mset)
  then have "mset (BinaryInsertionSort cmp wa n (length xs)) = mset wa"
    by (simp add: mset_BinaryInsertionSort)
  with False run wa show ?thesis by (simp add: v8_sort_short_def)
qed

lemma v8_sort_short_permutes: "sort_permutes v8_sort_short"
  by (simp add: sort_permutes_def mset_v8_sort_short)

lemma sort_permutes_length: "sort_permutes srt \<Longrightarrow> length (srt cmp xs) = length xs"
  by (metis sort_permutes_def size_mset)

section \<open>The engine's sort sorts when \<open>precedes\<close> is total and transitive\<close>

lemma count_run_ascending:
  assumes "total_preorder cmp"
  shows "sorted_wrt (precedes cmp) (prev # take (count_run cmp False prev xs) xs)"
proof (induction xs arbitrary: prev)
  case Nil
  show ?case by simp
next
  case (Cons x xs)
  show ?case
  proof (cases "cmp x prev < 0")
    case True
    then show ?thesis by (simp add: Let_def)
  next
    case False
    then have px: "precedes cmp prev x"
      using assms by (auto simp: total_preorder_def precedes_def)
    have tr: "precedes cmp x y \<Longrightarrow> precedes cmp prev y" for y
      using assms px unfolding total_preorder_def by blast
    from Cons.IH[of x] False px tr show ?thesis
      by (auto simp: Let_def)
  qed
qed

lemma count_run_descending:
  assumes "total_preorder cmp"
  shows "sorted_wrt (\<lambda>a b. precedes cmp b a) (prev # take (count_run cmp True prev xs) xs)"
proof (induction xs arbitrary: prev)
  case Nil
  show ?case by simp
next
  case (Cons x xs)
  show ?case
  proof (cases "cmp x prev \<ge> 0")
    case True
    then show ?thesis by (simp add: Let_def)
  next
    case False
    then have px: "precedes cmp x prev"
      by (simp add: precedes_def)
    have tr: "precedes cmp y x \<Longrightarrow> precedes cmp y prev" for y
      using assms px unfolding total_preorder_def by blast
    from Cons.IH[of x] False px tr show ?thesis
      by (auto simp: Let_def)
  qed
qed

lemma count_run_le: "count_run cmp isDescending prev xs \<le> length xs"
  by (induction xs arbitrary: prev) (auto simp: Let_def)

lemma CountAndMakeRun_sorted:
  assumes "total_preorder cmp" "CountAndMakeRun cmp xs = (n, wa)"
  shows "n \<le> length xs \<and> length wa = length xs \<and> sorted_wrt (precedes cmp) (take n wa)"
proof (cases xs)
  case Nil
  with assms(2) show ?thesis by (auto simp: CountAndMakeRun_def)
next
  case (Cons x0 ys)
  show ?thesis
  proof (cases ys)
    case Nil
    with Cons assms(2) show ?thesis by (auto simp: CountAndMakeRun_def)
  next
    case ys: (Cons x1 rest)
    let ?d = "cmp x1 x0 < 0"
    let ?c = "count_run cmp ?d x1 rest"
    have n: "n = 2 + ?c" and wa: "wa = (if ?d then rev (take n xs) @ drop n xs else xs)"
      using assms(2) Cons ys by (auto simp: CountAndMakeRun_def Let_def)
    have nle: "n \<le> length xs" using n count_run_le[of cmp ?d x1 rest] Cons ys by simp
    have tk: "take n xs = x0 # x1 # take ?c rest"
      using n Cons ys by simp
    show ?thesis
    proof (cases ?d)
      case True
      have "sorted_wrt (\<lambda>a b. precedes cmp b a) (x1 # take ?c rest)"
        using count_run_descending[OF assms(1), of x1 rest] True by simp
      moreover have "\<forall>y \<in> set (x1 # take ?c rest). precedes cmp y x0"
        using calculation True assms(1) unfolding total_preorder_def precedes_def
        by (auto; blast)
      ultimately have "sorted_wrt (\<lambda>a b. precedes cmp b a) (take n xs)"
        unfolding tk by simp
      then have "sorted_wrt (precedes cmp) (rev (take n xs))"
        by (simp add: sorted_wrt_rev)
      with True wa nle show ?thesis by simp
    next
      case False
      have "sorted_wrt (precedes cmp) (x1 # take ?c rest)"
        using count_run_ascending[OF assms(1), of x1 rest] False by simp
      moreover have p01: "precedes cmp x0 x1"
        using False assms(1) by (auto simp: total_preorder_def precedes_def)
      moreover have "\<forall>y \<in> set (take ?c rest). precedes cmp x0 y"
        using calculation assms(1) unfolding total_preorder_def
        by (auto; blast)
      ultimately have "sorted_wrt (precedes cmp) (take n xs)"
        unfolding tk by simp
      with False wa nle show ?thesis by simp
    qed
  qed
qed

lemma binary_search_point:
  "total_preorder cmp \<Longrightarrow> sorted_wrt (precedes cmp) (take start workArray) \<Longrightarrow>
     start \<le> length workArray \<Longrightarrow> left \<le> right \<Longrightarrow> right \<le> start \<Longrightarrow>
     (\<forall>j < left. \<not> precedes cmp pivot (workArray ! j)) \<Longrightarrow>
     (\<forall>j. right \<le> j \<and> j < start \<longrightarrow> precedes cmp pivot (workArray ! j)) \<Longrightarrow>
     (\<forall>j < binary_search cmp pivot workArray left right. \<not> precedes cmp pivot (workArray ! j))
     \<and> (\<forall>j. binary_search cmp pivot workArray left right \<le> j \<and> j < start \<longrightarrow>
            precedes cmp pivot (workArray ! j))"
proof (induction cmp pivot workArray left right rule: binary_search.induct)
  case (1 cmp pivot workArray left right)
  have sorted: "i < j \<Longrightarrow> j < start \<Longrightarrow> precedes cmp (workArray ! i) (workArray ! j)" for i j
    using "1.prems"(2,3) by (auto simp: sorted_wrt_iff_nth_less)
  have trans: "precedes cmp a b \<Longrightarrow> precedes cmp b c \<Longrightarrow> precedes cmp a c" for a b c
    using "1.prems"(1) unfolding total_preorder_def by blast
  show ?case
  proof (cases "left < right")
    case False
    with "1.prems" show ?thesis by (simp add: binary_search_stop)
  next
    case True
    let ?mid = "left + (right - left) div 2"
    have mid: "left \<le> ?mid" "?mid < right" using True by auto
    show ?thesis
    proof (cases "cmp pivot (workArray ! ?mid) < 0")
      case neg: True
      then have pm: "precedes cmp pivot (workArray ! ?mid)" by (simp add: precedes_def)
      have upper: "\<forall>j. ?mid \<le> j \<and> j < start \<longrightarrow> precedes cmp pivot (workArray ! j)"
      proof (intro allI impI)
        fix j assume j: "?mid \<le> j \<and> j < start"
        show "precedes cmp pivot (workArray ! j)"
        proof (cases "j = ?mid")
          case True
          with pm show ?thesis by simp
        next
          case False
          with j have "?mid < j" by simp
          from trans[OF pm sorted[OF this]] j show ?thesis by simp
        qed
      qed
      have "?mid \<le> start" using mid "1.prems"(5) by simp
      from "1.IH"(1)[OF True refl neg "1.prems"(1,2,3) mid(1) this "1.prems"(6) upper]
      show ?thesis
        by (simp only: binary_search_lower[of left right cmp pivot workArray, OF True neg])
    next
      case nonneg: False
      then have pm: "\<not> precedes cmp pivot (workArray ! ?mid)" by (simp add: precedes_def)
      have ms: "?mid < start" using mid "1.prems"(5) by simp
      have lower: "\<forall>j < ?mid + 1. \<not> precedes cmp pivot (workArray ! j)"
      proof (intro allI impI)
        fix j assume j: "j < ?mid + 1"
        show "\<not> precedes cmp pivot (workArray ! j)"
        proof (cases "j = ?mid")
          case True
          with pm show ?thesis by simp
        next
          case False
          with j have "j < ?mid" by simp
          from sorted[OF this ms] pm trans show ?thesis by blast
        qed
      qed
      have "?mid + 1 \<le> right" using mid by simp
      from "1.IH"(2)[OF True refl nonneg "1.prems"(1,2,3) this "1.prems"(5) lower "1.prems"(7)]
      show ?thesis
        by (simp only: binary_search_upper[of left right cmp pivot workArray, OF True nonneg])
    qed
  qed
qed

lemma take_insert_at:
  assumes "left \<le> start" "start < length workArray"
  shows "take (Suc start) (insert_at workArray left start)
           = take left workArray @ [workArray ! start] @ drop left (take start workArray)"
proof -
  let ?A = "take left workArray @ [workArray ! start] @ drop left (take start workArray)"
  have len: "length ?A = Suc start" using assms by simp
  have "insert_at workArray left start = ?A @ drop (Suc start) workArray"
    using assms by (simp add: insert_at_eq)
  then show ?thesis by (metis append_eq_conv_conj len)
qed

lemma insertion_step_sorted:
  assumes "total_preorder cmp"
    and "sorted_wrt (precedes cmp) (take start workArray)" "start < length workArray"
  shows "sorted_wrt (precedes cmp) (take (Suc start) (insertion_step cmp workArray start))"
proof -
  let ?pivot = "workArray ! start"
  let ?left = "binary_search cmp ?pivot workArray 0 start"
  let ?pre = "take start workArray"
  have le: "?left \<le> start"
    using binary_search_bounds[of 0 start cmp ?pivot workArray] by simp
  have sl: "start \<le> length workArray" using assms(3) by simp
  have none: "\<forall>j < (0::nat). \<not> precedes cmp ?pivot (workArray ! j)" by simp
  have void: "\<forall>j. start \<le> j \<and> j < start \<longrightarrow> precedes cmp ?pivot (workArray ! j)" by auto
  note point = binary_search_point[OF assms(1,2) sl le0 order_refl none void]
  have total: "\<not> precedes cmp a b \<Longrightarrow> precedes cmp b a" for a b
    using assms(1) unfolding total_preorder_def by blast
  have len: "length ?pre = start" using assms(3) by simp
  have low: "precedes cmp x ?pivot" if "x \<in> set (take ?left ?pre)" for x
  proof -
    from that obtain j where j: "j < ?left" "x = workArray ! j"
      using le len by (auto simp: in_set_conv_nth)
    from point j(1) have "\<not> precedes cmp ?pivot (workArray ! j)" by blast
    from total[OF this] j(2) show ?thesis by simp
  qed
  have high: "precedes cmp ?pivot y" if "y \<in> set (drop ?left ?pre)" for y
  proof -
    from that obtain j where j: "j < start - ?left" "y = workArray ! (?left + j)"
      using len by (auto simp: in_set_conv_nth)
    then have "?left \<le> ?left + j \<and> ?left + j < start" by simp
    with point have "precedes cmp ?pivot (workArray ! (?left + j))" by blast
    with j(2) show ?thesis by simp
  qed
  have "sorted_wrt (precedes cmp) (take ?left ?pre @ drop ?left ?pre)"
    using assms(2) by (simp only: append_take_drop_id)
  then have parts: "sorted_wrt (precedes cmp) (take ?left ?pre)"
      "sorted_wrt (precedes cmp) (drop ?left ?pre)"
    unfolding sorted_wrt_append by blast+
  have shape: "take (Suc start) (insertion_step cmp workArray start)
          = take ?left ?pre @ [?pivot] @ drop ?left ?pre"
  proof -
    have "take ?left workArray = take ?left ?pre"
      using le by (simp add: min_def)
    with take_insert_at[OF le assms(3)] show ?thesis
      by (simp add: insertion_step_def Let_def del: take_take)
  qed
  have "sorted_wrt (precedes cmp) ([?pivot] @ drop ?left ?pre)"
    using parts(2) high by simp
  moreover have "\<forall>x \<in> set (take ?left ?pre). \<forall>y \<in> set ([?pivot] @ drop ?left ?pre).
                   precedes cmp x y"
  proof (intro ballI)
    fix x y assume x: "x \<in> set (take ?left ?pre)" and y: "y \<in> set ([?pivot] @ drop ?left ?pre)"
    have xp: "precedes cmp x ?pivot" by (rule low[OF x])
    show "precedes cmp x y"
    proof (cases "y = ?pivot")
      case True
      with xp show ?thesis by simp
    next
      case False
      with y have "y \<in> set (drop ?left ?pre)" by simp
      from high[OF this] xp assms(1) show ?thesis
        unfolding total_preorder_def by blast
    qed
  qed
  ultimately have "sorted_wrt (precedes cmp) (take ?left ?pre @ ([?pivot] @ drop ?left ?pre))"
    using parts(1) unfolding sorted_wrt_append by blast
  with shape show ?thesis by simp
qed

lemma insertion_loop_sorted:
  assumes "total_preorder cmp"
  shows "start \<le> high \<Longrightarrow> high \<le> length workArray \<Longrightarrow>
     sorted_wrt (precedes cmp) (take start workArray) \<Longrightarrow>
     sorted_wrt (precedes cmp) (take high (foldl (insertion_step cmp) workArray [start..<high]))"
proof (induction "high - start" arbitrary: start workArray)
  case 0
  then show ?case by simp
next
  case (Suc d)
  then have lt: "start < high" by simp
  then have sl: "start < length workArray" using Suc.prems by simp
  let ?wa = "insertion_step cmp workArray start"
  have s1: "sorted_wrt (precedes cmp) (take (Suc start) ?wa)"
    by (rule insertion_step_sorted[OF assms Suc.prems(3) sl])
  have "length ?wa = length workArray"
    using mset_insertion_step[OF sl, of cmp] by (metis size_mset)
  with Suc.prems have hl: "high \<le> length ?wa" by simp
  have d: "d = high - Suc start" using Suc.hyps(2) by simp
  from Suc.hyps(1)[OF d _ hl s1] lt
  have "sorted_wrt (precedes cmp) (take high (foldl (insertion_step cmp) ?wa [Suc start..<high]))"
    by simp
  then show ?case using lt by (simp add: upt_conv_Cons)
qed

lemma v8_sort_short_sorted:
  assumes "total_preorder cmp"
  shows "sorted_wrt (precedes cmp) (v8_sort_short cmp xs)"
proof (cases "length xs < 2")
  case True
  then have "xs = [] \<or> (\<exists>x. xs = [x])"
    by (cases xs) (auto simp: length_Suc_conv)
  with True show ?thesis by (auto simp: v8_sort_short_def)
next
  case False
  obtain n wa where run: "CountAndMakeRun cmp xs = (n, wa)" by (cases "CountAndMakeRun cmp xs")
  from CountAndMakeRun_sorted[OF assms run]
  have n: "n \<le> length xs" and l: "length wa = length xs"
    and s: "sorted_wrt (precedes cmp) (take n wa)" by simp_all
  have n0: "n \<noteq> 0"
    using run False by (auto simp: CountAndMakeRun_def Let_def split: list.splits)
  let ?res = "foldl (insertion_step cmp) wa [n..<length xs]"
  have "sorted_wrt (precedes cmp) (take (length xs) ?res)"
    using insertion_loop_sorted[OF assms n _ s] l by simp
  moreover have "length ?res = length xs"
    using mset_insertion_loop[of "[n..<length xs]" wa cmp] l by (metis atLeastLessThan_iff set_upt size_mset)
  ultimately have "sorted_wrt (precedes cmp) ?res" by simp
  with False run n0 show ?thesis
    by (simp add: v8_sort_short_def BinaryInsertionSort_def Let_def)
qed

lemma precedes_amount_asc:
  "precedes (comparator ''amount'' ''asc'') a b \<longleftrightarrow> amount a \<le> amount b"
  by (simp add: precedes_def comparator_def get_property_def Let_def js_gt_def)

lemma precedes_amount_desc:
  "precedes (comparator ''amount'' ''desc'') a b \<longleftrightarrow> amount b \<le> amount a"
  by (simp add: precedes_def comparator_def get_property_def Let_def)

lemma total_preorder_amount:
  "total_preorder (comparator ''amount'' ''asc'')" "total_preorder (comparator ''amount'' ''desc'')"
  unfolding total_preorder_def precedes_amount_asc precedes_amount_desc by auto

lemma sorted_amount_asc:
  "sorted (map amount (v8_sort_short (comparator ''amount'' ''asc'') xs))"
proof -
  have "sorted_wrt (\<lambda>a b. amount a \<le> amount b) (v8_sort_short (comparator ''amount'' ''asc'') xs)"
    using v8_sort_short_sorted[OF total_preorder_amount(1), of xs]
    by (simp add: precedes_amount_asc[abs_def])
  then show ?thesis by (simp add: sorted_map)
qed

lemma sorted_amount_desc:
  "sorted (map amount (rev (v8_sort_short (comparator ''amount'' ''desc'') xs)))"
proof -
  have "sorted_wrt (\<lambda>a b. amount b \<le> amount a) (v8_sort_short (comparator ''amount'' ''desc'') xs)"
    using v8_sort_short_sorted[OF total_preorder_amount(2), of xs]
    by (simp add: precedes_amount_desc[abs_def])
  then have "sorted_wrt (\<lambda>a b. amount a \<le> amount b)
               (rev (v8_sort_short (comparator ''amount'' ''desc'') xs))"
    by (simp add: sorted_wrt_rev)
  then show ?thesis by (simp add: sorted_map)
qed

lemma distinct_amounts_desc_is_rev_asc:
  assumes "distinct (map amount xs)"
  shows "v8_sort_short (comparator ''amount'' ''desc'') xs
           = rev (v8_sort_short (comparator ''amount'' ''asc'') xs)"
proof -
  let ?A = "v8_sort_short (comparator ''amount'' ''asc'') xs"
  let ?D = "v8_sort_short (comparator ''amount'' ''desc'') xs"
  have mA: "mset ?A = mset xs" and mD: "mset (rev ?D) = mset xs"
    by (simp_all add: mset_v8_sort_short)
  have sA: "set ?A = set xs" and sD: "set (rev ?D) = set xs"
    using mA mD by (metis set_mset_mset)+
  have "mset (map amount ?A) = mset (map amount xs)"
    "mset (map amount (rev ?D)) = mset (map amount xs)"
    using mA mD by (metis mset_map)+
  then have dA: "distinct (map amount ?A)" and dD: "distinct (map amount (rev ?D))"
    using assms by (metis mset_eq_imp_distinct_iff)+
  have "set (map amount ?A) = set (map amount (rev ?D))"
    using sA sD by (metis set_map)
  with sorted_amount_asc[of xs] dA sorted_amount_desc[of xs] dD
  have eq: "map amount ?A = map amount (rev ?D)"
    by (intro sorted_distinct_set_unique)
  have "inj_on amount (set xs)"
    using assms by (simp add: distinct_map)
  then have "inj_on amount (set ?A \<union> set (rev ?D))"
    using sA sD by simp
  from inj_on_map_eq_map[OF this] eq have "?A = rev ?D" by blast
  then show ?thesis by (metis rev_rev_ident)
qed

section \<open>The filters of the list endpoint\<close>

lemma of_char_lower_char:
  "(of_char (lower_char c) :: nat) =
     (if is_upper c then of_char c + 32 else of_char c)"
  by (auto simp: lower_char_def is_upper_def Let_def)

lemma lower_char_eq_iff: "lower_char c = lower_char d \<longleftrightarrow> same_letter c d"
proof -
  have cd: "c = d \<longleftrightarrow> (of_char c :: nat) = of_char d"
    by simp
  have "lower_char c = lower_char d
          \<longleftrightarrow> (of_char (lower_char c) :: nat) = of_char (lower_char d)"
    by simp
  also have "\<dots> \<longleftrightarrow> same_letter c d"
    unfolding of_char_lower_char same_letter_def is_upper_def cd by auto
  finally show ?thesis .
qed

lemma toLowerCase_eq_iff:
  "toLowerCase u = toLowerCase v \<longleftrightarrow> list_all2 same_letter u v"
  unfolding toLowerCase_def
proof (induction u arbitrary: v)
  case Nil
  show ?case by auto
next
  case (Cons c u)
  show ?case by (cases v) (auto simp: lower_char_eq_iff Cons.IH)
qed

lemma String_startsWith_iff: "String_startsWith s n \<longleftrightarrow> (\<exists>suf. s = n @ suf)"
  by (induction s n rule: String_startsWith.induct) auto

lemma String_includes_iff: "String_includes s n \<longleftrightarrow> (\<exists>pre suf. s = pre @ n @ suf)"
proof (induction s)
  case Nil
  show ?case by auto
next
  case (Cons d s)
  have "(\<exists>pre suf. d # s = pre @ n @ suf)
          \<longleftrightarrow> (\<exists>suf. d # s = n @ suf) \<or> (\<exists>pre suf. s = pre @ n @ suf)"
    by (auto simp: Cons_eq_append_conv)
  then show ?case by (simp add: Cons.IH String_startsWith_iff del: String_startsWith.simps)
qed

lemma includes_lower_iff:
  "String_includes (toLowerCase hay) (toLowerCase needle) \<longleftrightarrow> ci_substring needle hay"
proof
  assume "String_includes (toLowerCase hay) (toLowerCase needle)"
  then obtain p s where "map lower_char hay = p @ map lower_char needle @ s"
    by (auto simp: String_includes_iff toLowerCase_def)
  then obtain pre mid suf where "hay = pre @ mid @ suf"
      and "map lower_char mid = map lower_char needle"
    by (auto simp: map_eq_append_conv append_eq_map_conv)
  then have "hay = pre @ mid @ suf \<and> list_all2 same_letter mid needle"
    by (simp add: toLowerCase_def flip: toLowerCase_eq_iff)
  then show "ci_substring needle hay"
    unfolding ci_substring_def by blast
next
  assume "ci_substring needle hay"
  then obtain pre mid suf where "hay = pre @ mid @ suf" and "toLowerCase mid = toLowerCase needle"
    by (auto simp: ci_substring_def toLowerCase_eq_iff)
  then have "toLowerCase hay = toLowerCase pre @ toLowerCase needle @ toLowerCase suf"
    by (simp add: toLowerCase_def)
  then show "String_includes (toLowerCase hay) (toLowerCase needle)"
    unfolding String_includes_iff by blast
qed

lemma ci_substring_Nil: "ci_substring [] hay"
  unfolding ci_substring_def by (rule exI[of _ "[]"], rule exI[of _ "[]"], rule exI[of _ hay]) simp

lemma status_filter_eq: "status_filter st xs = filter (passes_status st) xs"
  by (cases st) (auto simp: status_filter_def passes_status_def[abs_def] truthy_def)

lemma search_filter_eq: "search_filter search xs = filter (passes_search search) xs"
  by (cases search)
    (auto simp: search_filter_def passes_search_def[abs_def] truthy_def Let_def
      includes_lower_iff ci_substring_Nil)

lemma filteredInvoices_eq:
  "filteredInvoices store q =
     filter (\<lambda>invoice. passes_status (query_status q) invoice
                \<and> passes_search (query_search q) invoice) (Map_values store)"
  by (simp add: filteredInvoices_def status_filter_eq search_filter_eq conj_commute)

section \<open>Slices and the comparison function\<close>

lemma slice_beyond:
  assumes "int (length xs) \<le> start_arg"
  shows "slice xs start_arg end_arg = []"
  using assms by (simp add: slice_def Let_def min_def max_def)

lemma length_slice_negative:
  assumes "start_arg < 0" "end_arg < 0"
  shows "slice xs start_arg end_arg =
           take (nat (max (int (length xs) + end_arg) 0 - max (int (length xs) + start_arg) 0))
             (drop (nat (max (int (length xs) + start_arg) 0)) xs)"
  using assms by (simp add: slice_def Let_def)

lemma count_run_all:
  assumes "\<forall>a b. cmp a b < 0"
  shows "count_run cmp True prev xs = length xs"
proof (induction xs arbitrary: prev)
  case Nil
  show ?case by simp
next
  case (Cons x xs)
  have "\<not> 0 \<le> cmp x prev" using assms by (simp add: not_le)
  with Cons.IH[of x] show ?case by (simp add: Let_def)
qed

lemma v8_sort_short_reverses:
  assumes "\<forall>a b. cmp a b < 0"
  shows "v8_sort_short cmp xs = rev xs"
proof (cases xs)
  case Nil
  then show ?thesis by (simp add: v8_sort_short_def)
next
  case (Cons x0 ys)
  show ?thesis
  proof (cases ys)
    case Nil
    with Cons show ?thesis by (simp add: v8_sort_short_def)
  next
    case ys: (Cons x1 rest)
    have "CountAndMakeRun cmp xs = (length xs, rev xs)"
      using assms Cons ys by (simp add: CountAndMakeRun_def Let_def count_run_all)
    then show ?thesis
      using Cons ys by (simp add: v8_sort_short_def BinaryInsertionSort_def Let_def)
  qed
qed

lemma get_property_absent:
  "key \<notin> set property_names \<Longrightarrow> get_property a key = JUndefined"
  by (simp add: property_names_def get_property_def)

lemma comparator_absent:
  assumes "sortBy \<notin> set property_names"
  shows "comparator sortBy sortOrder a b = - 1"
proof -
  have "sortBy \<noteq> ''uploadDate''" using assms by (auto simp: property_names_def)
  then show ?thesis
    by (simp add: comparator_def Let_def get_property_absent[OF assms] js_gt_def)
qed

section \<open>The simulator keeps its invariant\<close>

lemma Map_get_Map_set:
  "Map_get (Map_set m k v) k' = (if k' = k then Some v else Map_get m k')"
  by (induction m) auto

lemma keys_Map_set_present:
  "Map_get m k = Some v \<Longrightarrow> map fst (Map_set m k v') = map fst m"
  by (induction m) (auto split: if_splits)

lemma moves_forward_refl: "moves_forward s s"
  by (simp add: moves_forward_def forward_def)

lemma fresh_uuids_Map_set:
  "fresh_uuids m us \<Longrightarrow> k \<notin> set us \<Longrightarrow> fresh_uuids (Map_set m k v) us"
  by (induction us) (auto simp: Map_get_Map_set)

lemma upload_file_agree:
  assumes "timers_agree s" "Map_get (invoices s) (uuid (snd fd)) = None"
  shows "timers_agree (upload_file s fd)"
proof -
  have "StartTimer (uuid (snd fd)) \<notin> set (timers s)"
    using assms by (auto simp: timers_agree_def)
  with assms show ?thesis
    by (auto simp: timers_agree_def upload_file_def Map_get_Map_set new_invoice_def)
qed

lemma upload_file_old:
  assumes "Map_get (invoices s) (uuid (snd fd)) = None"
  shows "Map_get (invoices (upload_file s fd)) i =
           (if i = uuid (snd fd) then Some (new_invoice (fst fd) (snd fd))
            else Map_get (invoices s) i)"
  by (simp add: upload_file_def Map_get_Map_set)

lemma uploads_agree:
  "timers_agree s \<Longrightarrow> fresh_uuids (invoices s) (map (\<lambda>fd. uuid (snd fd)) files) \<Longrightarrow>
     timers_agree (foldl upload_file s files)
     \<and> (\<forall>i v. Map_get (invoices s) i = Some v \<longrightarrow>
            Map_get (invoices (foldl upload_file s files)) i = Some v)
     \<and> (\<forall>i v'. Map_get (invoices s) i = None \<longrightarrow>
            Map_get (invoices (foldl upload_file s files)) i = Some v' \<longrightarrow> status v' = Pending)"
proof (induction files arbitrary: s)
  case Nil
  then show ?case by simp
next
  case (Cons fd files)
  let ?s1 = "upload_file s fd"
  from Cons.prems(2) have none: "Map_get (invoices s) (uuid (snd fd)) = None"
    and notin: "uuid (snd fd) \<notin> set (map (\<lambda>fd. uuid (snd fd)) files)"
    and rest: "fresh_uuids (invoices s) (map (\<lambda>fd. uuid (snd fd)) files)"
    by simp_all
  have agree1: "timers_agree ?s1"
    by (rule upload_file_agree[OF Cons.prems(1) none])
  have fresh1: "fresh_uuids (invoices ?s1) (map (\<lambda>fd. uuid (snd fd)) files)"
    using fresh_uuids_Map_set[OF rest notin] by (simp add: upload_file_def)
  note IH = Cons.IH[OF agree1 fresh1]
  have get1: "Map_get (invoices ?s1) i =
           (if i = uuid (snd fd) then Some (new_invoice (fst fd) (snd fd))
            else Map_get (invoices s) i)" for i
    by (rule upload_file_old[OF none])
  show ?case
  proof (intro conjI allI impI)
    show "timers_agree (foldl upload_file s (fd # files))"
      using IH by simp
  next
    fix i v assume "Map_get (invoices s) i = Some v"
    with none have "Map_get (invoices ?s1) i = Some v" by (auto simp: get1)
    with IH show "Map_get (invoices (foldl upload_file s (fd # files))) i = Some v"
      by simp
  next
    fix i v'
    assume n: "Map_get (invoices s) i = None"
      and s: "Map_get (invoices (foldl upload_file s (fd # files))) i = Some v'"
    show "status v' = Pending"
    proof (cases "i = uuid (snd fd)")
      case True
      then have "Map_get (invoices ?s1) i = Some (new_invoice (fst fd) (snd fd))"
        by (simp add: get1)
      with IH s have "v' = new_invoice (fst fd) (snd fd)" by simp
      then show ?thesis by (simp add: new_invoice_def)
    next
      case False
      with n have "Map_get (invoices ?s1) i = None" by (simp add: get1)
      with IH s show ?thesis by simp
    qed
  qed
qed

lemma post_upload_step:
  assumes "timers_agree s" "event_fresh s (Upload files)"
  shows "timers_agree (post_upload s files) \<and> moves_forward s (post_upload s files)"
proof (cases "files = []")
  case True
  with assms show ?thesis by (simp add: post_upload_def moves_forward_refl)
next
  case False
  from assms(2) have "fresh_uuids (invoices s) (map (\<lambda>fd. uuid (snd fd)) files)"
    by (simp add: event_fresh_def)
  from uploads_agree[OF assms(1) this] False show ?thesis
    by (auto simp: post_upload_def moves_forward_def forward_def)
qed

lemma start_step:
  assumes "timers_agree s" "StartTimer i \<in> set (timers s)"
  shows "timers_agree (simulateProcessing (s\<lparr>timers := remove1 (StartTimer i) (timers s)\<rparr>) i t)
     \<and> moves_forward s (simulateProcessing (s\<lparr>timers := remove1 (StartTimer i) (timers s)\<rparr>) i t)"
proof -
  from assms obtain v where v: "Map_get (invoices s) i = Some v" "status v = Pending"
    by (auto simp: timers_agree_def)
  have nofinish: "FinishTimer i \<notin> set (timers s)"
    using assms(1) v by (auto simp: timers_agree_def)
  have d: "distinct (timers s)" using assms(1) by (simp add: timers_agree_def)
  have agree: "timers_agree (simulateProcessing (s\<lparr>timers := remove1 (StartTimer i) (timers s)\<rparr>) i t)"
    using assms(1) v nofinish d
    by (auto simp: timers_agree_def simulateProcessing_def Map_get_Map_set)
  have fwd: "moves_forward s (simulateProcessing (s\<lparr>timers := remove1 (StartTimer i) (timers s)\<rparr>) i t)"
    using v by (auto simp: moves_forward_def simulateProcessing_def Map_get_Map_set forward_def)
  from agree fwd show ?thesis ..
qed

lemma finish_step:
  assumes "timers_agree s" "FinishTimer i \<in> set (timers s)"
  shows "timers_agree (finishProcessing (s\<lparr>timers := remove1 (FinishTimer i) (timers s)\<rparr>) i ok t)
     \<and> moves_forward s (finishProcessing (s\<lparr>timers := remove1 (FinishTimer i) (timers s)\<rparr>) i ok t)"
proof -
  from assms obtain v where v: "Map_get (invoices s) i = Some v" "status v = Processing"
    by (auto simp: timers_agree_def)
  have nostart: "StartTimer i \<notin> set (timers s)"
    using assms(1) v by (auto simp: timers_agree_def)
  have d: "distinct (timers s)" using assms(1) by (simp add: timers_agree_def)
  have agree: "timers_agree (finishProcessing (s\<lparr>timers := remove1 (FinishTimer i) (timers s)\<rparr>) i ok t)"
    using assms(1) v nostart d
    by (auto simp: timers_agree_def finishProcessing_def Map_get_Map_set)
  have fwd: "moves_forward s (finishProcessing (s\<lparr>timers := remove1 (FinishTimer i) (timers s)\<rparr>) i ok t)"
    using v by (auto simp: moves_forward_def finishProcessing_def Map_get_Map_set forward_def)
  from agree fwd show ?thesis ..
qed

lemma step_agree:
  assumes "timers_agree s" "event_fresh s e" "step s e = Some s'"
  shows "timers_agree s' \<and> moves_forward s s'"
proof (cases e)
  case (Upload files)
  with assms post_upload_step[of s files] show ?thesis by (auto simp: step_def)
next
  case (FireStart i t)
  with assms start_step[of s i t] show ?thesis by (auto simp: step_def split: if_splits)
next
  case (FireFinish i ok t)
  with assms finish_step[of s i ok t] show ?thesis by (auto simp: step_def split: if_splits)
qed

lemma run_agree:
  "timers_agree s \<Longrightarrow> run_fresh s evs \<Longrightarrow> run s evs = Some s' \<Longrightarrow> timers_agree s'"
proof (induction evs arbitrary: s)
  case Nil
  then show ?case by simp
next
  case (Cons e evs)
  from Cons.prems(3) obtain s1 where s1: "step s e = Some s1" and r: "run s1 evs = Some s'"
    by (auto split: option.splits)
  from Cons.prems(2) s1 have f: "event_fresh s e" "run_fresh s1 evs" by simp_all
  from step_agree[OF Cons.prems(1) f(1) s1] have "timers_agree s1" ..
  from Cons.IH[OF this f(2) r] show ?case .
qed

lemma initial_agree: "timers_agree initial"
  by (simp add: timers_agree_def initial_def)

lemma moves_forward_allowed:
  "moves_forward s s' \<Longrightarrow> allowed (observe s i) (observe s' i)"
proof (cases "Map_get (invoices s) i")
  case None
  assume "moves_forward s s'"
  with None have "Map_get (invoices s') i = Some v' \<Longrightarrow> status v' = Pending" for v'
    unfolding moves_forward_def by blast
  with None show ?thesis
    by (cases "Map_get (invoices s') i") (simp_all add: observe_def)
next
  case (Some v)
  assume "moves_forward s s'"
  with Some obtain v' where "Map_get (invoices s') i = Some v'" "forward (status v) (status v')"
    unfolding moves_forward_def by blast
  with Some show ?thesis by (simp add: observe_def)
qed

lemma history_Cons: "\<exists>rest. history s evs i = observe s i # rest"
  by (cases evs) auto

lemma history_agree:
  "timers_agree s \<Longrightarrow> run_fresh s evs \<Longrightarrow> successively allowed (history s evs i)"
proof (induction evs arbitrary: s)
  case Nil
  show ?case by simp
next
  case (Cons e evs)
  show ?case
  proof (cases "step s e")
    case None
    then show ?thesis by simp
  next
    case (Some s')
    from Cons.prems Some have f: "event_fresh s e" "run_fresh s' evs" by simp_all
    from step_agree[OF Cons.prems(1) f(1) Some]
    have a: "timers_agree s'" and m: "moves_forward s s'" by simp_all
    obtain rest where h: "history s' evs i = observe s' i # rest"
      using history_Cons by blast
    from Cons.IH[OF a f(2)] h moves_forward_allowed[OF m, of i] Some
    show ?thesis by simp
  qed
qed

section \<open>The claims about the list endpoint\<close>

text \<open>
  C1 (sorting is stable in both directions; amounts 500, 100, 100, 900 sorted ascending
  keep the tied pair in input order). The comparison function answers -1 for two records
  with equal keys, in either order of its arguments, and never 0. Evaluated on the engine's
  sort, the store with the amounts 500, 100, 100, 900 comes out with the second record of
  amount 100 before the first, ascending, and again so descending: the tied pair does not
  keep its input order.
\<close>

theorem tied_amounts_come_out_reversed:
  "map (\<lambda>invoice. (invoice_id invoice, amount invoice)) (Map_values amounts_store)
     = [(''first500'', 500), (''first100'', 100), (''second100'', 100), (''first900'', 900)]
   \<and> map invoice_id (data (get_api_invoices v8_sort_short amounts_store amount_asc))
       = [''second100'', ''first100'', ''first500'', ''first900'']
   \<and> map invoice_id (data (get_api_invoices v8_sort_short amounts_store
                              (amount_asc\<lparr>query_sortOrder := Some ''desc''\<rparr>)))
       = [''first900'', ''first500'', ''second100'', ''first100'']"
  by code_simp

text \<open>
  Ties apart, the sort by amount is sound on the engine's sort: the ascending response is
  ordered by amount, and when the filtered records have pairwise distinct amounts the
  descending sequence is exactly the reverse of the ascending one.
\<close>

lemma distinct_amounts_desc_response_is_rev_asc:
  assumes "distinct (map amount (filteredInvoices store q))"
    and "query_sortBy q = Some ''amount''"
  shows "sortedInvoices v8_sort_short store (q\<lparr>query_sortOrder := Some ''desc''\<rparr>)
           = rev (sortedInvoices v8_sort_short store (q\<lparr>query_sortOrder := Some ''asc''\<rparr>))
         \<and> sorted (map amount
               (sortedInvoices v8_sort_short store (q\<lparr>query_sortOrder := Some ''asc''\<rparr>)))"
  using assms distinct_amounts_desc_is_rev_asc[of "filteredInvoices store q"]
    sorted_amount_asc[of "filteredInvoices store q"]
  by (simp add: sortedInvoices_def sortBy_of_def sortOrder_of_def string_or_def truthy_def
      filteredInvoices_def)

text \<open>
  C2 (a \<open>sortBy\<close> outside uploadDate, amount, clientName leaves the filtered sequence
  in its original order, for ascending and descending requests). For a \<open>sortBy\<close> that
  names no property of the records both operands of the comparison are \<^verbatim>\<open>undefined\<close>,
  and the comparison function answers -1 on the pair, never 0. Evaluated on the engine's
  sort, the four records of the sample store come back in reversed order, ascending and
  descending alike: the original order is not kept.
\<close>

theorem absent_key_reverses_on_v8:
  "sortBy_of nonsense_asc \<notin> set property_names
   \<and> map invoice_id (filteredInvoices amounts_store nonsense_asc)
       = [''first500'', ''first100'', ''second100'', ''first900'']
   \<and> map invoice_id (data (get_api_invoices v8_sort_short amounts_store nonsense_asc))
       = [''first900'', ''second100'', ''first100'', ''first500'']
   \<and> map invoice_id (data (get_api_invoices v8_sort_short amounts_store
                              (nonsense_asc\<lparr>query_sortOrder := Some ''desc''\<rparr>)))
       = [''first900'', ''second100'', ''first100'', ''first500'']"
  by code_simp

text \<open>
  The same on every store: when \<open>sortBy\<close> names no property, the engine's sort hands back
  the filtered sequence reversed, whatever the direction asked for.
\<close>

lemma absent_key_reverses_every_store:
  assumes "sortBy_of q \<notin> set property_names"
  shows "sortedInvoices v8_sort_short store q = rev (filteredInvoices store q)"
proof -
  have "\<forall>a b. comparator (sortBy_of q) (sortOrder_of q) a b < 0"
    by (simp add: comparator_absent[OF assms])
  then show ?thesis
    by (simp add: sortedInvoices_def v8_sort_short_reverses)
qed

text \<open>
  A \<open>sortBy\<close> outside the three names that is a property of the records is sorted by:
  the handler reads \<^verbatim>\<open>a[sortBy]\<close> for any name. Here the file sizes 4096, 3072, 2048,
  1024 come back ascending.
\<close>

lemma other_property_is_sorted_by:
  "sortBy_of fileSize_asc \<notin> {''uploadDate'', ''amount'', ''clientName''}
   \<and> map fileSize (filteredInvoices amounts_store fileSize_asc) = [4096, 3072, 2048, 1024]
   \<and> map fileSize (data (get_api_invoices v8_sort_short amounts_store fileSize_asc))
       = [1024, 2048, 3072, 4096]"
  by code_simp

text \<open>
  C4: the \<open>total\<close> of the response is the number of records that pass the status filter
  and the text filter, whatever the \<open>page\<close> and \<open>limit\<close> parameters are.
\<close>

theorem total_counts_filtered:
  assumes "sort_permutes srt"
  shows "total (get_api_invoices srt store (q\<lparr>query_page := p, query_limit := l\<rparr>))
           = length (filter (\<lambda>invoice. passes_status (query_status q) invoice
                               \<and> passes_search (query_search q) invoice) (Map_values store))"
  using assms
  by (simp add: get_api_invoices_def Let_def sortedInvoices_def sort_permutes_length
      filteredInvoices_eq)

theorem total_counts_filtered_witness:
  "sort_permutes v8_sort_short
   \<and> total (get_api_invoices v8_sort_short amounts_store
        (no_params\<lparr>query_status := Some ''Pending'', query_page := Some ''2'',
                    query_limit := Some ''1''\<rparr>)) = 2"
proof -
  have "length (filter (\<lambda>invoice. passes_status (Some ''Pending'') invoice
                          \<and> passes_search None invoice) (Map_values amounts_store)) = 2"
    by (simp add: passes_status_def passes_search_def Map_values_def amounts_store_def
        store_of_def sample_invoice_def status_string_def)
  with total_counts_filtered[OF v8_sort_short_permutes,
      where store = amounts_store and q = "no_params\<lparr>query_status := Some ''Pending''\<rparr>"
        and p = "Some ''2''" and l = "Some ''1''"]
  show ?thesis by (simp add: v8_sort_short_permutes no_params_def)
qed

text \<open>
  C5: when \<open>(page - 1) * limit\<close> is at or beyond the number of filtered records, with
  \<open>page\<close> at least 1, \<open>data\<close> is empty and \<open>total\<close> is still the number of filtered
  records; page 3 with limit 10 over five records is the witness.
\<close>

theorem page_beyond_last_is_empty:
  assumes "sort_permutes srt"
    and "1 \<le> page_of q"
    and "int (length (filteredInvoices store q)) \<le> (page_of q - 1) * limit_of q"
  shows "data (get_api_invoices srt store q) = []
         \<and> total (get_api_invoices srt store q) = length (filteredInvoices store q)"
proof -
  have len: "length (sortedInvoices srt store q) = length (filteredInvoices store q)"
    using assms(1) by (simp add: sortedInvoices_def sort_permutes_length)
  with assms(3) have "slice (sortedInvoices srt store q) ((page_of q - 1) * limit_of q)
                        ((page_of q - 1) * limit_of q + limit_of q) = []"
    by (simp add: slice_beyond)
  with len show ?thesis by (simp add: get_api_invoices_def Let_def)
qed

theorem page_beyond_last_is_empty_witness:
  "sort_permutes v8_sort_short
   \<and> 1 \<le> page_of page3_limit10
   \<and> int (length (filteredInvoices five_store page3_limit10))
        \<le> (page_of page3_limit10 - 1) * limit_of page3_limit10
   \<and> data (get_api_invoices v8_sort_short five_store page3_limit10) = []
   \<and> total (get_api_invoices v8_sort_short five_store page3_limit10) = 5"
proof -
  have p: "page_of page3_limit10 = 3" and l: "limit_of page3_limit10 = 10"
    by code_simp+
  have n: "length (filteredInvoices five_store page3_limit10) = 5"
    by code_simp
  from page_beyond_last_is_empty[OF v8_sort_short_permutes, of page3_limit10 five_store]
  show ?thesis by (simp add: p l n v8_sort_short_permutes)
qed

text \<open>
  C6: a status parameter equal to "all" and an absent status parameter give the same
  response, and in both the status filter keeps every record: the filtered sequence is the
  text filter applied to all the values of the store.
\<close>

theorem status_all_or_absent_is_no_filter:
  "get_api_invoices srt store (q\<lparr>query_status := Some ''all''\<rparr>)
     = get_api_invoices srt store (q\<lparr>query_status := None\<rparr>)
   \<and> filteredInvoices store (q\<lparr>query_status := Some ''all''\<rparr>)
       = search_filter (query_search q) (Map_values store)
   \<and> filteredInvoices store (q\<lparr>query_status := None\<rparr>)
       = search_filter (query_search q) (Map_values store)"
  by (simp add: get_api_invoices_def sortedInvoices_def filteredInvoices_def status_filter_def
      truthy_def page_of_def limit_of_def sortBy_of_def sortOrder_of_def)

theorem status_all_or_absent_is_no_filter_witness:
  "get_api_invoices v8_sort_short amounts_store (amount_asc\<lparr>query_status := Some ''all''\<rparr>)
     = get_api_invoices v8_sort_short amounts_store (amount_asc\<lparr>query_status := None\<rparr>)
   \<and> length (filteredInvoices amounts_store (amount_asc\<lparr>query_status := Some ''all''\<rparr>)) = 4"
proof -
  have "length (search_filter (query_search amount_asc) (Map_values amounts_store)) = 4"
    by code_simp
  with status_all_or_absent_is_no_filter[of v8_sort_short amounts_store amount_asc]
  show ?thesis by simp
qed



text \<open>
  C10: the \<open>page\<close> parameter is not checked to be positive. A value that parses to 0
  falls back to 1; a negative value \<open>n\<close> is the page of the response and, with a positive
  limit, both bounds of the slice are negative, so that the slice is counted from the end
  of the sorted sequence; for \<open>page = -1\<close> and \<open>limit = 1\<close> over a store of four
  records the data is not empty.
\<close>

theorem negative_page_not_validated:
  assumes "sort_permutes srt"
  shows "(parseInt (query_page q) = Some 0 \<longrightarrow> page_of q = 1)
   \<and> (\<forall>n. n < 0 \<and> parseInt (query_page q) = Some n \<and> 0 < limit_of q \<longrightarrow>
         page (get_api_invoices srt store q) = n
         \<and> data (get_api_invoices srt store q) =
             (let sorted = sortedInvoices srt store q;
                  len = int (length sorted);
                  k = max (len + (n - 1) * limit_of q) 0;
                  final = max (len + n * limit_of q) 0
              in take (nat (final - k)) (drop (nat k) sorted)))
   \<and> page_of page_minus1_limit1 < 0
   \<and> data (get_api_invoices srt amounts_store page_minus1_limit1) \<noteq> []"
proof (intro conjI allI impI)
  assume "parseInt (query_page q) = Some 0"
  then show "page_of q = 1" by (simp add: page_of_def number_or_def)
next
  fix n
  assume a: "n < 0 \<and> parseInt (query_page q) = Some n \<and> 0 < limit_of q"
  then have p: "page_of q = n" by (simp add: page_of_def number_or_def)
  then show "page (get_api_invoices srt store q) = n"
    by (simp add: get_api_invoices_def Let_def)
  have neg: "(n - 1) * limit_of q < 0" "(n - 1) * limit_of q + limit_of q < 0"
    using a by (simp_all add: mult_less_0_iff algebra_simps)
  have e: "(n - 1) * limit_of q + limit_of q = n * limit_of q"
    by (simp add: algebra_simps)
  show "data (get_api_invoices srt store q) =
          (let sorted = sortedInvoices srt store q;
               len = int (length sorted);
               k = max (len + (n - 1) * limit_of q) 0;
               final = max (len + n * limit_of q) 0
           in take (nat (final - k)) (drop (nat k) sorted))"
    using length_slice_negative[OF neg, of "sortedInvoices srt store q"]
    by (simp add: get_api_invoices_def Let_def p e)
next
  show "page_of page_minus1_limit1 < 0" by code_simp
next
  have p: "page_of page_minus1_limit1 = - 1" and l: "limit_of page_minus1_limit1 = 1"
    by code_simp+
  have "length (filteredInvoices amounts_store page_minus1_limit1) = 4"
    by code_simp
  then have "length (sortedInvoices srt amounts_store page_minus1_limit1) = 4"
    using assms by (simp add: sortedInvoices_def sort_permutes_length)
  then have "length (slice (sortedInvoices srt amounts_store page_minus1_limit1) (- 2) (- 1)) = 1"
    by (simp add: slice_def Let_def)
  then have "length (data (get_api_invoices srt amounts_store page_minus1_limit1)) = 1"
    by (simp add: get_api_invoices_def Let_def p l)
  then show "data (get_api_invoices srt amounts_store page_minus1_limit1) \<noteq> []"
    by auto
qed

theorem negative_page_not_validated_witness:
  "sort_permutes v8_sort_short
   \<and> parseInt (query_page page_minus1_limit1) = Some (- 1)
   \<and> limit_of page_minus1_limit1 = 1
   \<and> page (get_api_invoices v8_sort_short amounts_store page_minus1_limit1) = - 1
   \<and> map invoice_id (data (get_api_invoices v8_sort_short amounts_store page_minus1_limit1))
       = [''first100'']"
proof -
  have pi: "parseInt (query_page page_minus1_limit1) = Some (- 1)"
    and l: "limit_of page_minus1_limit1 = 1"
    by code_simp+
  have d: "map invoice_id (data (get_api_invoices v8_sort_short amounts_store page_minus1_limit1))
       = [''first100'']"
    by code_simp
  from negative_page_not_validated[OF v8_sort_short_permutes, of page_minus1_limit1 amounts_store]
  have "- 1 < (0::int) \<and> parseInt (query_page page_minus1_limit1) = Some (- 1)
               \<and> 0 < limit_of page_minus1_limit1
             \<longrightarrow> page (get_api_invoices v8_sort_short amounts_store page_minus1_limit1) = - 1"
    by blast
  then have "page (get_api_invoices v8_sort_short amounts_store page_minus1_limit1) = - 1"
    using pi l by simp
  with pi l d show ?thesis by (simp add: v8_sort_short_permutes)
qed

section \<open>The claims about the status simulator\<close>

text \<open>
  C3: in every run of the server from the empty store (uploads and timer callbacks in any
  order, the identifiers drawn by uploads being new), what is observed of any identifier is
  a chain of allowed moves: absent, then Pending, then Processing, then Processed or Failed.
  No observation leaves Processed or Failed, and none reaches them except from Processing.
\<close>

theorem status_only_moves_forward:
  assumes "run_fresh initial evs"
  shows "successively allowed (history initial evs i)"
  by (rule history_agree[OF initial_agree assms])

theorem status_only_moves_forward_witness:
  "run_fresh initial sample_events
   \<and> history initial sample_events ''u1''
       = [None, Some Pending, Some Processing, Some Failed]
   \<and> successively allowed (history initial sample_events ''u1'')"
proof -
  have f: "run_fresh initial sample_events" by code_simp
  have h: "history initial sample_events ''u1''
             = [None, Some Pending, Some Processing, Some Failed]"
    by code_simp
  from status_only_moves_forward[OF f, of "''u1''"] f h show ?thesis by simp
qed

text \<open>
  The hypothesis on the identifiers is needed: were \<^verbatim>\<open>uuidv4()\<close> to return an identifier
  a second time, the upload would replace a Processing record by a Pending one while the
  Finish callback of the first is still pending.
\<close>

lemma colliding_uuid_breaks_the_chain:
  "\<not> run_fresh initial colliding_events
   \<and> history initial colliding_events ''u1''
       = [None, Some Pending, Some Processing, Some Pending, Some Processed]
   \<and> \<not> successively allowed (history initial colliding_events ''u1'')"
  by code_simp

text \<open>
  C8: when the record is in the store, the Finish step replaces it by the same record with
  \<open>status\<close> set to Processed or Failed and \<open>processingEndTime\<close> set to the time of the
  step; every other field, every other record, the order of the store and the pending
  callbacks stay as they were. After Start at \<open>t0\<close>, a failing Finish leaves status Failed,
  the end time set and \<open>processingStartTime\<close> equal to \<open>t0\<close>.
\<close>

theorem finish_changes_status_and_end_time_only:
  assumes "Map_get (invoices s) invoiceId = Some invoice"
  shows "Map_get (invoices (finishProcessing s invoiceId isSuccess t)) invoiceId
           = Some (invoice\<lparr>status := (if isSuccess then Processed else Failed),
                        processingEndTime := Some t\<rparr>)
   \<and> (\<forall>other. other \<noteq> invoiceId \<longrightarrow>
          Map_get (invoices (finishProcessing s invoiceId isSuccess t)) other
            = Map_get (invoices s) other)
   \<and> map fst (invoices (finishProcessing s invoiceId isSuccess t)) = map fst (invoices s)
   \<and> timers (finishProcessing s invoiceId isSuccess t) = timers s
   \<and> Map_get (invoices (finishProcessing (simulateProcessing s invoiceId t0) invoiceId False t))
         invoiceId
       = Some (invoice\<lparr>status := Failed, processingStartTime := Some t0,
                    processingEndTime := Some t\<rparr>)"
  using assms
  by (simp add: finishProcessing_def simulateProcessing_def Map_get_Map_set
      keys_Map_set_present)

theorem finish_changes_status_and_end_time_only_witness:
  "Map_get (invoices sample_uploaded) ''u1'' = Some (new_invoice sample_file sample_draws)
   \<and> Map_get (invoices (finishProcessing (simulateProcessing sample_uploaded ''u1'' 1700000001000)
         ''u1'' False 1700000020000)) ''u1''
       = Some ((new_invoice sample_file sample_draws)
                 \<lparr>status := Failed, processingStartTime := Some 1700000001000,
                  processingEndTime := Some 1700000020000\<rparr>)"
proof -
  have g: "Map_get (invoices sample_uploaded) ''u1'' = Some (new_invoice sample_file sample_draws)"
    by (simp add: sample_uploaded_def post_upload_def upload_file_def initial_def
        sample_draws_def)
  from finish_changes_status_and_end_time_only[OF g] g show ?thesis by simp
qed

text \<open>
  C9: for an identifier that is not in the store, the Start step and the Finish step return
  the server as it was: the store is unchanged and no callback is registered.
\<close>

theorem absent_id_is_silent_noop:
  assumes "Map_get (invoices s) invoiceId = None"
  shows "simulateProcessing s invoiceId t = s \<and> finishProcessing s invoiceId isSuccess t = s"
  using assms by (simp add: simulateProcessing_def finishProcessing_def)

theorem absent_id_is_silent_noop_witness:
  "Map_get (invoices sample_uploaded) ''ghost'' = None
   \<and> simulateProcessing sample_uploaded ''ghost'' 1700000001000 = sample_uploaded
   \<and> finishProcessing sample_uploaded ''ghost'' True 1700000020000 = sample_uploaded"
proof -
  have n: "Map_get (invoices sample_uploaded) ''ghost'' = None" by code_simp
  from absent_id_is_silent_noop[OF n] n show ?thesis by simp
qed

end
